theory Spec2Isabelle
  imports Main "HOL-Library.Word"
begin

unbundle bit_operations_syntax

section \<open>The packet cache of galene (packetcache.go)\<close>

text \<open>
  The cache keeps the last packets of a stream in a ring, a 32-bit bitmap of the sequence
  numbers that arrived, and the counters of the reception statistics. Go's \<open>uint16\<close> and
  \<open>uint32\<close> are \<open>16 word\<close> and \<open>32 word\<close>: their arithmetic wraps around. Go's
  \<open>int\<close> has 64 bits (a 64-bit platform such as linux/amd64): an argument of type
  \<open>int\<close> is an \<open>int\<close> from \<open>- 2 ^ 63\<close> up to \<open>2 ^ 63 - 1\<close>, and the one expression on
  \<open>int\<close> that can leave this range, \<open>capacity*2\<close> in \<open>ResizeCond\<close>, wraps around
  (\<open>int64\<close>). The sums and differences of \<open>resize\<close> stay in the range, since their
  operands are an index, a length and a capacity that \<open>make\<close> has accepted. \<open>make\<close>
  panics on a length that is negative or above the limit of the Go runtime for one
  allocation; below that limit the memory is taken to be there. The mutex
  is left out: each operation runs under the lock from its first to its last statement,
  so an operation is a function from the state before to the state after. A run-time
  panic of Go is a value of type \<open>panic\<close>, and an operation that can panic returns
  \<open>Inl\<close> of it. The names are those of the source, but for \<open>last_c\<close> (the field
  \<open>last\<close>), \<open>length_e\<close> (the field \<open>length\<close>) and \<open>set_c\<close> (the method \<open>set\<close>),
  which are names of the list library.
\<close>

subsection \<open>Data\<close>

type_synonym byte = "8 word"

definition BufSize :: nat where
  "BufSize = 1500"

record entry =
  seqno :: "16 word"
  length_e :: "16 word"
  buf :: "byte list"

record Cache =
  last_c :: "16 word"
  cycle :: "16 word"
  lastValid :: bool
  expected :: "32 word"
  lost :: "32 word"
  totalLost :: "32 word"
  first :: "16 word"
  bitmap :: "32 word"
  tail :: "16 word"
  entries :: "entry list"

datatype panic = IndexOutOfRange | SliceBoundsOutOfRange | DivideByZero | MakeSliceLenOutOfRange

text \<open>The zero value of an entry, as \<open>make([]entry, capacity)\<close> fills the ring with.\<close>

definition zero_entry :: entry where
  "zero_entry = \<lparr>seqno = 0, length_e = 0, buf = replicate BufSize 0\<rparr>"

text \<open>The size of an \<open>entry\<close> in bytes (two \<open>uint16\<close> and the buffer), and the largest
  size of one allocation in the Go runtime on a 64-bit platform (\<open>maxAlloc\<close>, \<open>1 << 48\<close>).\<close>

definition entry_size :: int where
  "entry_size = 2 + 2 + int BufSize"

definition maxAlloc :: int where
  "maxAlloc = 2 ^ 48"

text \<open>Go's \<open>make([]entry, capacity)\<close>: it panics (\<open>makeslice: len out of range\<close>) on a
  negative length and on a length whose size in bytes is above \<open>maxAlloc\<close>.\<close>

definition make_entries :: "int \<Rightarrow> panic + entry list" where
  "make_entries capacity =
     (if capacity < 0 \<or> capacity * entry_size > maxAlloc then Inl MakeSliceLenOutOfRange
      else Inr (replicate (nat capacity) zero_entry))"

text \<open>The value of an expression of type \<open>int\<close> whose result in the integers is \<open>x\<close>:
  the low 64 bits of \<open>x\<close>, read as two's complement.\<close>

definition int64 :: "int \<Rightarrow> int" where
  "int64 x = sint (word_of_int x :: 64 word)"

text \<open>Go's \<open>copy(dst, src)\<close> on slices: the first \<open>min (len dst) (len src)\<close> elements
  of \<open>src\<close> overwrite those of \<open>dst\<close>; the result is the new content of \<open>dst\<close>.\<close>

definition copy_slice :: "'a list \<Rightarrow> 'a list \<Rightarrow> 'a list" where
  "copy_slice dst src = take (length dst) src @ drop (length src) dst"

subsection \<open>Construction\<close>

text \<open>The composite literal \<open>Cache{entries: es}\<close>: every other field has its zero
  value.\<close>

definition new_cache :: "entry list \<Rightarrow> Cache" where
  "new_cache es = \<lparr>last_c = 0, cycle = 0, lastValid = False, expected = 0, lost = 0,
     totalLost = 0, first = 0, bitmap = 0, tail = 0, entries = es\<rparr>"

text \<open>\<open>New\<close> (lines 32-39). \<open>None\<close> is the nil pointer.\<close>

definition New :: "int \<Rightarrow> panic + Cache option" where
  "New capacity =
     (if capacity > uint (NOT (0 :: 16 word)) then Inr None
      else case make_entries capacity of
        Inl p \<Rightarrow> Inl p
      | Inr es \<Rightarrow> Inr (Some (new_cache es)))"

subsection \<open>Sequence numbers\<close>

text \<open>\<open>seqnoInvalid\<close> (lines 41-51).\<close>

definition seqnoInvalid :: "16 word \<Rightarrow> 16 word \<Rightarrow> bool" where
  "seqnoInvalid sq reference =
     (if (sq - reference) AND 0x8000 = 0 then False
      else if reference - sq > 0x100 then True
      else False)"

subsection \<open>Panics and slices\<close>

text \<open>Sequencing of steps that may panic: the first panic ends the operation.\<close>

definition bind_p :: "panic + 'a \<Rightarrow> ('a \<Rightarrow> panic + 'b) \<Rightarrow> panic + 'b" where
  "bind_p m f = (case m of Inl p \<Rightarrow> Inl p | Inr x \<Rightarrow> f x)"

text \<open>Go's slice expression \<open>xs[lo:hi]\<close> on a slice whose capacity is its length (every
  ring here comes from \<open>make\<close> with one size): it panics unless \<open>0 \<le> lo \<le> hi \<le> len xs\<close>.\<close>

definition slice :: "'a list \<Rightarrow> int \<Rightarrow> int \<Rightarrow> panic + 'a list" where
  "slice xs lo hi =
     (if 0 \<le> lo \<and> lo \<le> hi \<and> hi \<le> int (length xs)
      then Inr (take (nat (hi - lo)) (drop (nat lo) xs))
      else Inl SliceBoundsOutOfRange)"

text \<open>\<open>copy(dst[lo:], src)\<close>: the slice expression panics unless \<open>0 \<le> lo \<le> len dst\<close>;
  the result is the new content of the whole of \<open>dst\<close>.\<close>

definition copy_from :: "'a list \<Rightarrow> int \<Rightarrow> 'a list \<Rightarrow> panic + 'a list" where
  "copy_from dst lo src =
     (if 0 \<le> lo \<and> lo \<le> int (length dst)
      then Inr (take (nat lo) dst @ copy_slice (drop (nat lo) dst) src)
      else Inl SliceBoundsOutOfRange)"

subsection \<open>The arrival bitmap\<close>

text \<open>\<open>set\<close> (lines 54-75). A shift of a \<open>uint32\<close> by 32 or more gives 0 in Go, as
  \<open>drop_bit\<close> does.\<close>

definition set_c :: "16 word \<Rightarrow> Cache \<Rightarrow> Cache" where
  "set_c sq cache =
     (if bitmap cache = 0 \<or> seqnoInvalid sq (first cache)
      then cache\<lparr>first := sq, bitmap := 1\<rparr>
      else if (sq - first cache) AND 0x8000 \<noteq> 0 then cache
      else if sq - first cache < 32
      then cache\<lparr>bitmap := bitmap cache OR push_bit (unat (sq - first cache)) 1\<rparr>
      else
        let shift = sq - first cache - 31;
            bitmap' = drop_bit (unat shift) (bitmap cache);
            first' = first cache + shift
        in cache\<lparr>first := first', bitmap := bitmap' OR push_bit (unat (sq - first')) 1\<rparr>)"

subsection \<open>Store and Expect\<close>

text \<open>The statistics part of \<open>Store\<close> (lines 82-99).\<close>

definition Store_stats :: "16 word \<Rightarrow> Cache \<Rightarrow> Cache" where
  "Store_stats sq cache =
     (if \<not> lastValid cache \<or> seqnoInvalid sq (last_c cache)
      then cache\<lparr>last_c := sq, lastValid := True, expected := expected cache + 1\<rparr>
      else if (last_c cache - sq) AND 0x8000 \<noteq> 0
      then cache\<lparr>expected := expected cache + ucast (sq - last_c cache),
                 lost := lost cache + ucast (sq - last_c cache - 1),
                 cycle := (if sq < last_c cache then cycle cache + 1 else cycle cache),
                 last_c := sq\<rparr>
      else if lost cache > 0 then cache\<lparr>lost := lost cache - 1\<rparr>
      else cache)"

text \<open>\<open>Store\<close> (lines 78-110): the statistics, the bitmap, then the ring (lines 103-109).
  \<open>cache.entries[i]\<close> panics when \<open>i\<close> is not below the length of the ring, and
  \<open>% uint16(len(cache.entries))\<close> panics when that conversion gives 0. The result is
  \<open>(first, i)\<close> and the state after.\<close>

definition Store :: "16 word \<Rightarrow> byte list \<Rightarrow> Cache \<Rightarrow> panic + ((16 word \<times> 16 word) \<times> Cache)" where
  "Store sq b cache0 =
     (let cache = set_c sq (Store_stats sq cache0);
          i = tail cache
      in if \<not> unat i < length (entries cache) then Inl IndexOutOfRange
         else
           let e = entries cache ! unat i;
               e' = e\<lparr>seqno := sq, buf := copy_slice (buf e) b, length_e := of_nat (length b)\<rparr>
           in if (of_nat (length (entries cache)) :: 16 word) = 0 then Inl DivideByZero
              else Inr ((first cache, i),
                        cache\<lparr>entries := (entries cache)[unat i := e'],
                              tail := (i + 1) mod of_nat (length (entries cache))\<rparr>))"

text \<open>\<open>Expect\<close> (lines 112-119): \<open>uint32(n)\<close> keeps the low 32 bits of \<open>n\<close>.\<close>

definition Expect :: "int \<Rightarrow> Cache \<Rightarrow> Cache" where
  "Expect n cache =
     (if n \<le> 0 then cache
      else cache\<lparr>expected := expected cache + word_of_int n\<rparr>)"

subsection \<open>Lookups\<close>

text \<open>The expression \<open>uint16(copy(result[:e.length], e.buf[:]))\<close> that the three lookups
  end with. The list \<open>result\<close> is the caller's slice from its start to its capacity:
  \<open>result[:n]\<close> panics when \<open>n\<close> exceeds the capacity. The value is the number of bytes
  copied and the new content of \<open>result\<close>.\<close>

definition copy_out :: "entry \<Rightarrow> byte list \<Rightarrow> panic + (16 word \<times> byte list)" where
  "copy_out e result =
     (if unat (length_e e) > length result then Inl SliceBoundsOutOfRange
      else Inr (of_nat (min (unat (length_e e)) (length (buf e))),
                copy_slice (take (unat (length_e e)) result) (buf e)
                  @ drop (unat (length_e e)) result))"

text \<open>\<open>Get\<close> (lines 121-136): the loop over the ring.\<close>

fun Get_loop :: "entry list \<Rightarrow> 16 word \<Rightarrow> byte list \<Rightarrow> panic + (16 word \<times> byte list)" where
  "Get_loop [] sq result = Inr (0, result)"
| "Get_loop (e # es) sq result =
     (if length_e e = 0 \<or> seqno e \<noteq> sq then Get_loop es sq result
      else copy_out e result)"

definition Get :: "16 word \<Rightarrow> byte list \<Rightarrow> Cache \<Rightarrow> panic + (16 word \<times> byte list)" where
  "Get sq result cache = Get_loop (entries cache) sq result"

text \<open>\<open>GetLast\<close> (lines 138-151).\<close>

definition GetLast :: "byte list \<Rightarrow> Cache \<Rightarrow> panic + (16 word \<times> byte list)" where
  "GetLast result cache =
     (let i0 = tail cache - 1;
          i = (if i0 \<ge> of_nat (length (entries cache)) then 0 else i0)
      in if \<not> unat i < length (entries cache) then Inl IndexOutOfRange
         else copy_out (entries cache ! unat i) result)"

text \<open>\<open>GetAt\<close> (lines 153-167).\<close>

definition GetAt :: "16 word \<Rightarrow> 16 word \<Rightarrow> byte list \<Rightarrow> Cache \<Rightarrow> panic + (16 word \<times> byte list)" where
  "GetAt sq index result cache =
     (if uint index > int (length (entries cache)) then Inr (0, result)
      else if \<not> unat index < length (entries cache) then Inl IndexOutOfRange
      else if seqno (entries cache ! unat index) \<noteq> sq then Inr (0, result)
      else copy_out (entries cache ! unat index) result)"

subsection \<open>Resizing\<close>

text \<open>\<open>resize\<close> (lines 169-192).\<close>

definition resize :: "int \<Rightarrow> Cache \<Rightarrow> panic + Cache" where
  "resize capacity cache =
     (let len = int (length (entries cache)); t = uint (tail cache)
      in if len = capacity then Inr cache
         else bind_p (make_entries capacity) (\<lambda>es.
           if capacity > len then
             bind_p (slice (entries cache) 0 t) (\<lambda>pre.
             bind_p (slice (entries cache) t len) (\<lambda>suf.
             bind_p (copy_from (copy_slice es pre) (t + capacity - len) suf) (\<lambda>es'.
             Inr (cache\<lparr>entries := es'\<rparr>))))
           else if capacity > t then
             bind_p (slice (entries cache) 0 t) (\<lambda>pre.
             bind_p (slice (entries cache) (t + len - capacity) len) (\<lambda>suf.
             bind_p (copy_from (copy_slice es pre) t suf) (\<lambda>es'.
             Inr (cache\<lparr>entries := es'\<rparr>))))
           else
             bind_p (slice (entries cache) (t - capacity) t) (\<lambda>recent.
             Inr (cache\<lparr>tail := 0, entries := copy_slice es recent\<rparr>))))"

definition Resize :: "int \<Rightarrow> Cache \<Rightarrow> panic + Cache" where
  "Resize capacity cache = resize capacity cache"

text \<open>Go's \<open>/\<close> on \<open>int\<close> truncates towards zero.\<close>

definition quot :: "int \<Rightarrow> int \<Rightarrow> int" where
  "quot a b = sgn a * sgn b * (\<bar>a\<bar> div \<bar>b\<bar>)"

text \<open>\<open>ResizeCond\<close> (lines 201-218). The product \<open>capacity*2\<close> wraps around in 64
  bits; \<open>capacity/2\<close> and \<open>current/2\<close> cannot leave the range.\<close>

definition ResizeCond :: "int \<Rightarrow> Cache \<Rightarrow> panic + (bool \<times> Cache)" where
  "ResizeCond capacity cache =
     (let current = int (length (entries cache))
      in if current \<ge> quot capacity 2 \<and> current < int64 (capacity * 2)
         then Inr (False, cache)
         else if uint (tail cache) > quot current 2 \<and> uint (tail cache) > quot capacity 2
         then Inr (False, cache)
         else bind_p (resize capacity cache) (\<lambda>cache'. Inr (True, cache')))"

subsection \<open>Feedback and statistics\<close>

text \<open>The loop of \<open>BitmapGet\<close> (lines 236-239). On the bitmap 0 it never ends: its value
  is then \<open>None\<close>.\<close>

partial_function (option) BitmapGet_loop :: "32 word \<Rightarrow> 16 word \<Rightarrow> (32 word \<times> 16 word) option" where
  "BitmapGet_loop bm f =
     (if bm AND 1 = 0 then BitmapGet_loop (drop_bit 1 bm) (f + 1) else Some (bm, f))"

text \<open>\<open>BitmapGet\<close> (lines 223-242).\<close>

definition BitmapGet :: "Cache \<Rightarrow> ((bool \<times> 16 word \<times> 16 word) \<times> Cache) option" where
  "BitmapGet cache =
     (let f = first cache;
          bm = NOT (bitmap cache) AND 0x1FFFF;
          cache' = cache\<lparr>bitmap := drop_bit 17 (bitmap cache), first := first cache + 17\<rparr>
      in if bm = 0 then Some ((False, f, 0), cache')
         else case BitmapGet_loop bm f of
           None \<Rightarrow> None
         | Some (bm', f') \<Rightarrow> Some ((True, f', ucast (drop_bit 1 bm')), cache'))"

text \<open>\<open>GetStats\<close> (lines 244-259).\<close>

definition GetStats :: "bool \<Rightarrow> Cache \<Rightarrow> (32 word \<times> 32 word \<times> 32 word \<times> 32 word) \<times> Cache" where
  "GetStats reset cache =
     ((expected cache, lost cache, totalLost cache + lost cache,
       push_bit 16 (ucast (cycle cache)) OR ucast (last_c cache)),
      (if reset
       then cache\<lparr>expected := 0, totalLost := totalLost cache + lost cache, lost := 0\<rparr>
       else cache))"

subsection \<open>Sequences of calls\<close>

text \<open>A caller that stores the packets of a list one after the other.\<close>

fun Store_all :: "(16 word \<times> byte list) list \<Rightarrow> Cache \<Rightarrow> panic + Cache" where
  "Store_all [] cache = Inr cache"
| "Store_all ((sq, b) # ps) cache =
     (case Store sq b cache of Inl p \<Rightarrow> Inl p | Inr (r, cache') \<Rightarrow> Store_all ps cache')"

text \<open>The public operations on a cache, with their arguments, and the effect of one call
  on the state: \<open>None\<close> when the call does not return, \<open>Some (Inl p)\<close> when it
  panics, \<open>Some (Inr cache')\<close> when it returns.\<close>

datatype op =
    OpStore "16 word" "byte list"
  | OpExpect int
  | OpGet "16 word" "byte list"
  | OpGetLast "byte list"
  | OpGetAt "16 word" "16 word" "byte list"
  | OpResize int
  | OpResizeCond int
  | OpBitmapGet
  | OpGetStats bool

fun step :: "op \<Rightarrow> Cache \<Rightarrow> (panic + Cache) option" where
  "step (OpStore sq b) cache = Some (map_sum id snd (Store sq b cache))"
| "step (OpExpect n) cache = Some (Inr (Expect n cache))"
| "step (OpGet sq result) cache = Some (map_sum id (\<lambda>r. cache) (Get sq result cache))"
| "step (OpGetLast result) cache = Some (map_sum id (\<lambda>r. cache) (GetLast result cache))"
| "step (OpGetAt sq index result) cache =
     Some (map_sum id (\<lambda>r. cache) (GetAt sq index result cache))"
| "step (OpResize capacity) cache = Some (Resize capacity cache)"
| "step (OpResizeCond capacity) cache = Some (map_sum id snd (ResizeCond capacity cache))"
| "step OpBitmapGet cache = map_option (\<lambda>r. Inr (snd r)) (BitmapGet cache)"
| "step (OpGetStats reset) cache = Some (Inr (snd (GetStats reset cache)))"

text \<open>The states a cache goes through under a list of calls, each call on the state the
  one before left; a call that panics or does not return ends the run.\<close>

fun run :: "op list \<Rightarrow> Cache \<Rightarrow> (op \<times> Cache \<times> Cache) list" where
  "run [] cache = []"
| "run (x # xs) cache =
     (case step x cache of
        Some (Inr cache') \<Rightarrow> (x, cache, cache') # run xs cache'
      | _ \<Rightarrow> [])"

text \<open>The outcome of a list of calls: the state after the last one, or the first panic,
  or \<open>None\<close> when a call does not return.\<close>

fun exec :: "op list \<Rightarrow> Cache \<Rightarrow> (panic + Cache) option" where
  "exec [] cache = Some (Inr cache)"
| "exec (x # xs) cache =
     (case step x cache of
        Some (Inr cache') \<Rightarrow> exec xs cache'
      | r \<Rightarrow> r)"

text \<open>A caller that stores \<open>n\<close> empty packets, each one 0x7FFF sequence numbers ahead of
  the one before, the first one 0x7FFF ahead of \<open>s\<close>.\<close>

fun gap_stores :: "nat \<Rightarrow> 16 word \<Rightarrow> op list" where
  "gap_stores 0 s = []"
| "gap_stores (Suc n) s = OpStore (s + 0x7FFF) [] # gap_stores n (s + 0x7FFF)"

subsection \<open>Predicates of the properties\<close>

text \<open>A ring on which \<open>Store\<close> does not panic: its length fits \<open>uint16\<close> and the tail is
  an index of it.\<close>

definition ring_ok :: "Cache \<Rightarrow> bool" where
  "ring_ok c = (length (entries c) \<le> 65535 \<and> unat (tail c) < length (entries c))"

text \<open>The statistics fields of two states agree.\<close>

definition stats_eq :: "Cache \<Rightarrow> Cache \<Rightarrow> bool" where
  "stats_eq a b = (last_c a = last_c b \<and> lastValid a = lastValid b \<and> cycle a = cycle b \<and>
     expected a = expected b \<and> lost a = lost b \<and> totalLost a = totalLost b)"

text \<open>The count of trailing zero bits of a 32-bit value, in the words of the
  specification of \<open>BitmapGet\<close>: the number of bit positions, from bit 0 up, before the
  first bit that is set (32 when none is).\<close>

definition trailing_zeros :: "32 word \<Rightarrow> nat" where
  "trailing_zeros w = length (takeWhile (\<lambda>i. \<not> bit w i) [0..<32])"

text \<open>What one call may do to the counters \<open>lost\<close> and \<open>totalLost\<close> without a
  subtraction that goes below zero. The values are read as natural numbers, so a
  difference written here is a true difference; sums are taken modulo \<open>2 ^ 32\<close>.
  \<^item> \<open>Store\<close> leaves \<open>totalLost\<close>, and it leaves \<open>lost\<close>, or adds \<open>gap - 1\<close> to it
    for a gap \<open>seqno - last\<close> of at least 1, or takes 1 from a \<open>lost\<close> of at least 1.
  \<^item> \<open>GetStats\<close> leaves both, or adds \<open>lost\<close> to \<open>totalLost\<close> and sets \<open>lost\<close> to 0.
  \<^item> Every other operation leaves both.\<close>

fun counters_ok :: "op \<Rightarrow> Cache \<Rightarrow> Cache \<Rightarrow> bool" where
  "counters_ok (OpStore sq b) c c' =
     (totalLost c' = totalLost c \<and>
      (lost c' = lost c \<or>
       (1 \<le> unat (sq - last_c c) \<and>
        unat (lost c') = (unat (lost c) + (unat (sq - last_c c) - 1)) mod 2 ^ 32) \<or>
       (1 \<le> unat (lost c) \<and> unat (lost c') = unat (lost c) - 1)))"
| "counters_ok (OpGetStats reset) c c' =
     ((lost c' = lost c \<and> totalLost c' = totalLost c) \<or>
      (lost c' = 0 \<and> unat (totalLost c') = (unat (totalLost c) + unat (lost c)) mod 2 ^ 32))"
| "counters_ok x c c' = (lost c' = lost c \<and> totalLost c' = totalLost c)"

section \<open>Sequence-number comparison\<close>

lemma bit15_iff: "bit (d :: 16 word) 15 \<longleftrightarrow> 0x8000 \<le> d"
proof -
  have lt: "unat d < 65536"
    using unsigned_less [of d, where 'a = nat] by simp
  have "bit d 15 \<longleftrightarrow> bit (unat d) 15"
    by (simp add: bit_unsigned_iff)
  also have "\<dots> \<longleftrightarrow> odd (unat d div 32768)"
    by (simp add: bit_iff_odd)
  also have "\<dots> \<longleftrightarrow> 32768 \<le> unat d"
  proof (cases "32768 \<le> unat d")
    case True
    then have "unat d div 32768 = 1" using lt by simp
    then show ?thesis using True by simp
  next
    case False
    then have "unat d div 32768 = 0" by simp
    then show ?thesis using False by simp
  qed
  finally show ?thesis by (simp add: word_le_nat_alt)
qed

lemma top_bit_clear: "(d :: 16 word) AND 0x8000 = 0 \<longleftrightarrow> d \<le> 0x7FFF"
  using and_exp_eq_0_iff_not_bit [of d 15] bit15_iff [of d]
  by (simp add: word_le_nat_alt not_le word_less_nat_alt) arith

lemma neg_top: "0 < (d :: 16 word) \<Longrightarrow> d \<le> 0x8000 \<Longrightarrow> 0x8000 \<le> - d"
  using uint_sub_if' [of 0 d] by (simp add: word_le_def word_less_def)

text \<open>
  C6. For every reference \<open>r\<close>: \<open>seqnoInvalid r r\<close> is false; a sequence number at a
  forward distance of at most 0x7FFF is not invalid; one at a backward distance of at
  most 256 is not invalid; one at a backward distance above 256 and at most 0x7FFF is
  invalid. The sums and differences wrap modulo 65536.
\<close>

theorem seqnoInvalid_window:
  "\<not> seqnoInvalid r r \<and>
   (d1 \<le> 0x7FFF \<longrightarrow> \<not> seqnoInvalid (r + d1) r) \<and>
   (d2 \<le> 0x100 \<longrightarrow> \<not> seqnoInvalid (r - d2) r) \<and>
   (0x100 < d3 \<and> d3 \<le> 0x7FFF \<longrightarrow> seqnoInvalid (r - d3) r)"
proof (intro conjI impI)
  show "\<not> seqnoInvalid r r" by (simp add: seqnoInvalid_def)
next
  assume "d1 \<le> 0x7FFF"
  then show "\<not> seqnoInvalid (r + d1) r" by (simp add: seqnoInvalid_def top_bit_clear)
next
  assume "d2 \<le> 0x100"
  then have "\<not> 0x100 < d2" by (simp add: not_less)
  then show "\<not> seqnoInvalid (r - d2) r" by (simp add: seqnoInvalid_def)
next
  assume a: "0x100 < d3 \<and> d3 \<le> 0x7FFF"
  then have "0 < d3" "d3 \<le> 0x8000" by unat_arith+
  then have "0x8000 \<le> - d3" by (rule neg_top)
  then have "\<not> (- d3 \<le> 0x7FFF)" by unat_arith
  then show "seqnoInvalid (r - d3) r" using a by (simp add: seqnoInvalid_def top_bit_clear)
qed

theorem seqnoInvalid_window_witness:
  "\<not> seqnoInvalid 0xFFF0 0xFFF0 \<and>
   (0x7FFF :: 16 word) \<le> 0x7FFF \<and> \<not> seqnoInvalid (0xFFF0 + 0x7FFF) 0xFFF0 \<and>
   (0x100 :: 16 word) \<le> 0x100 \<and> \<not> seqnoInvalid (0xFFF0 - 0x100) 0xFFF0 \<and>
   (0x100 :: 16 word) < 0x101 \<and> (0x101 :: 16 word) \<le> 0x7FFF \<and>
   seqnoInvalid (0xFFF0 - 0x101) 0xFFF0"
  using seqnoInvalid_window [of "0xFFF0" "0x7FFF" "0x100" "0x101"] by simp

section \<open>Construction\<close>

lemma max_uint16: "uint (- 1 :: 16 word) = 65535"
  by (simp add: uint_word_ariths)

text \<open>\<open>make\<close> accepts every length that fits \<open>uint16\<close>, and no negative one.\<close>

lemma make_entries_upto:
  "0 \<le> C \<Longrightarrow> C \<le> 65535 \<Longrightarrow> make_entries C = Inr (replicate (nat C) zero_entry)"
  by (simp add: make_entries_def entry_size_def maxAlloc_def BufSize_def)

lemma make_entries_neg: "C < 0 \<Longrightarrow> make_entries C = Inl MakeSliceLenOutOfRange"
  by (simp add: make_entries_def)

text \<open>
  C2, as the claim states it, fails at the capacity 65536: \<open>New\<close> returns nil there.
\<close>

theorem New_65536_is_nil: "New 65536 = Inr None"
  by (simp add: New_def max_uint16)

text \<open>
  C2, amended. \<open>New\<close> returns nil exactly when the capacity is above 65535, the largest
  \<open>uint16\<close>; for every capacity from 0 (so from 1) to 65535 it returns a cache whose ring
  has that many empty slots and whose tail is 0.
\<close>

theorem New_succeeds_iff:
  "(New C = Inr None \<longleftrightarrow> 65535 < C) \<and>
   (0 \<le> C \<and> C \<le> 65535 \<longrightarrow>
      (\<exists>c. New C = Inr (Some c) \<and> c = new_cache (replicate (nat C) zero_entry) \<and>
           length (entries c) = nat C \<and> tail c = 0))"
proof (cases "C < 0")
  case True
  then show ?thesis by (simp add: New_def make_entries_neg max_uint16)
next
  case False
  then show ?thesis
    by (cases "C \<le> 65535") (simp_all add: New_def make_entries_upto max_uint16 new_cache_def)
qed

theorem New_succeeds_iff_witness:
  "New 65536 = Inr None \<and> (0::int) \<le> 65535 \<and> (65535::int) \<le> 65535 \<and>
   (\<exists>c. New 65535 = Inr (Some c) \<and> length (entries c) = 65535 \<and> tail c = 0)"
  using New_succeeds_iff [of 65535] New_succeeds_iff [of 65536] by auto

section \<open>Lookup by index\<close>

text \<open>
  C1. \<open>GetAt\<close> is meant to return 0 for an index out of range, but its test is
  \<open>int(index) > len(cache.entries)\<close>: an index equal to the capacity passes it, and
  \<open>cache.entries[index]\<close> panics.
\<close>

theorem GetAt_index_eq_capacity_panics:
  "unat index = length (entries c) \<Longrightarrow> GetAt sq index result c = Inl IndexOutOfRange"
  by (simp add: GetAt_def uint_nat)

theorem GetAt_index_eq_capacity_panics_witness:
  "New 4 = Inr (Some (new_cache (replicate 4 zero_entry))) \<and>
   unat (4 :: 16 word) = length (entries (new_cache (replicate 4 zero_entry))) \<and>
   GetAt 0 4 (replicate 1500 0) (new_cache (replicate 4 zero_entry)) = Inl IndexOutOfRange"
proof -
  have len: "unat (4 :: 16 word) = length (entries (new_cache (replicate 4 zero_entry)))"
    by (simp add: new_cache_def)
  have "New 4 = Inr (Some (new_cache (replicate 4 zero_entry)))"
    by (simp add: New_def make_entries_upto max_uint16)
  with len GetAt_index_eq_capacity_panics [OF len] show ?thesis by simp
qed

text \<open>For an index above the capacity, and for an index below it whose slot holds
  another sequence number, \<open>GetAt\<close> does return 0 and leaves \<open>result\<close> as it is.\<close>

lemma GetAt_miss:
  assumes "int (length (entries c)) < uint index \<or>
    (unat index < length (entries c) \<and> seqno (entries c ! unat index) \<noteq> sq)"
  shows "GetAt sq index result c = Inr (0, result)"
  using assms
proof
  assume "int (length (entries c)) < uint index"
  then show ?thesis by (simp add: GetAt_def)
next
  assume a: "unat index < length (entries c) \<and> seqno (entries c ! unat index) \<noteq> sq"
  have "uint index = int (unat index)" by (rule uint_nat)
  with a have "\<not> int (length (entries c)) < uint index" by linarith
  with a show ?thesis by (simp add: GetAt_def)
qed

section \<open>Expect\<close>

text \<open>
  C10, as the claim states it, fails: a positive \<open>n\<close> does not always increase
  \<open>expected\<close> by \<open>n\<close>. The counter is a \<open>uint32\<close> and the code adds \<open>uint32(n)\<close>. On a
  fresh cache \<open>Expect(4294967296)\<close> leaves \<open>expected\<close> at 0, and after
  \<open>Expect(4294967294)\<close> the call \<open>Expect(2)\<close> takes \<open>expected\<close> from 0xFFFFFFFE to 0.
\<close>

theorem Expect_wraps:
  "(0 :: int) < 4294967296 \<and>
   Expect 4294967296 (new_cache [zero_entry]) = new_cache [zero_entry] \<and>
   expected (Expect 4294967294 (new_cache [zero_entry])) = 0xFFFFFFFE \<and>
   (0 :: int) < 2 \<and>
   expected (Expect 2 (Expect 4294967294 (new_cache [zero_entry]))) = 0"
  by (simp add: Expect_def new_cache_def)

text \<open>
  C10, amended. For \<open>n \<le> 0\<close>, \<open>Expect n\<close> leaves the whole state as it is. For \<open>n > 0\<close>
  it adds \<open>uint32(n)\<close> to \<open>expected\<close> in the arithmetic of \<open>uint32\<close>: the new value is
  the old one plus \<open>n\<close>, modulo \<open>2 ^ 32\<close>. Every other field stays as it is.
\<close>

theorem Expect_frame:
  "(n \<le> 0 \<longrightarrow> Expect n c = c) \<and>
   (0 < n \<longrightarrow>
      expected (Expect n c) = expected c + word_of_int n \<and>
      unat (expected (Expect n c)) = (unat (expected c) + nat n) mod 2 ^ 32 \<and>
      bitmap (Expect n c) = bitmap c \<and> first (Expect n c) = first c \<and>
      entries (Expect n c) = entries c \<and> tail (Expect n c) = tail c \<and>
      last_c (Expect n c) = last_c c \<and> lastValid (Expect n c) = lastValid c \<and>
      cycle (Expect n c) = cycle c \<and> lost (Expect n c) = lost c \<and>
      totalLost (Expect n c) = totalLost c)"
proof -
  have "unat (expected c + word_of_int n) = (unat (expected c) + nat n) mod 2 ^ 32" if "0 < n"
  proof -
    have "word_of_int n = (of_nat (nat n) :: 32 word)" using that by simp
    then show ?thesis by (simp add: unat_word_ariths unat_of_nat mod_add_right_eq)
  qed
  then show ?thesis by (simp add: Expect_def)
qed

theorem Expect_frame_witness:
  "(-2 :: int) \<le> 0 \<and>
   Expect (-2) (new_cache [zero_entry]\<lparr>expected := 5\<rparr>) = new_cache [zero_entry]\<lparr>expected := 5\<rparr> \<and>
   (0 :: int) < 3 \<and>
   expected (Expect 3 (new_cache [zero_entry]\<lparr>expected := 5\<rparr>)) = 8 \<and>
   lost (Expect 3 (new_cache [zero_entry]\<lparr>expected := 5\<rparr>)) = 0"
  using Expect_frame [of "-2" "new_cache [zero_entry]\<lparr>expected := 5\<rparr>"]
    Expect_frame [of 3 "new_cache [zero_entry]\<lparr>expected := 5\<rparr>"]
  by (simp add: new_cache_def)

section \<open>Statistics\<close>

text \<open>
  C8. \<open>GetStats\<close> returns \<open>(expected, lost, totalLost + lost, (cycle << 16) | last)\<close> of
  the state before the call. Without \<open>reset\<close> the state stays as it is. With \<open>reset\<close>
  the state after has \<open>totalLost\<close> increased by \<open>lost\<close>, \<open>lost = 0\<close> and
  \<open>expected = 0\<close>, every other field as before, and the third component that a next call
  of \<open>GetStats\<close> returns is the one the resetting call returned.
\<close>

theorem GetStats_reset_cumulative:
  "fst (GetStats reset c) =
     (expected c, lost c, totalLost c + lost c, push_bit 16 (ucast (cycle c)) OR ucast (last_c c)) \<and>
   (\<not> reset \<longrightarrow> snd (GetStats reset c) = c) \<and>
   (reset \<longrightarrow>
      totalLost (snd (GetStats reset c)) = totalLost c + lost c \<and>
      lost (snd (GetStats reset c)) = 0 \<and>
      expected (snd (GetStats reset c)) = 0 \<and>
      snd (GetStats reset c) = c\<lparr>expected := 0, totalLost := totalLost c + lost c, lost := 0\<rparr> \<and>
      fst (snd (snd (fst (GetStats reset' (snd (GetStats reset c)))))) =
        fst (snd (snd (fst (GetStats reset c)))))"
  by (simp add: GetStats_def)

theorem GetStats_reset_cumulative_witness:
  "fst (GetStats True (new_cache []\<lparr>cycle := 1, last_c := 2, expected := 9, lost := 3, totalLost := 4\<rparr>))
     = (9, 3, 7, 0x10002) \<and>
   fst (GetStats False (snd (GetStats True
     (new_cache []\<lparr>cycle := 1, last_c := 2, expected := 9, lost := 3, totalLost := 4\<rparr>))))
     = (0, 0, 7, 0x10002) \<and>
   snd (GetStats False (new_cache [])) = new_cache []"
  using GetStats_reset_cumulative
    [of True "new_cache []\<lparr>cycle := 1, last_c := 2, expected := 9, lost := 3, totalLost := 4\<rparr>" False]
    GetStats_reset_cumulative [of False "new_cache []"]
    GetStats_reset_cumulative
    [of False "snd (GetStats True
       (new_cache []\<lparr>cycle := 1, last_c := 2, expected := 9, lost := 3, totalLost := 4\<rparr>))"]
  by (simp add: new_cache_def)

section \<open>Evaluating calls on a given cache\<close>

lemma rep2: "replicate 2 x = [x, x]"
  by (simp add: numeral_2_eq_2)

lemma rep4: "replicate 4 x = [x, x, x, x]"
  by (simp add: numeral_eq_Suc)

lemma rep8: "replicate 8 x = [x, x, x, x, x, x, x, x]"
  by (simp add: numeral_eq_Suc)

lemmas eval_defs = Store_def Let_def set_c_def Store_stats_def seqnoInvalid_def new_cache_def
  zero_entry_def BufSize_def copy_slice_def

section \<open>The last packet\<close>

text \<open>
  C5. \<open>GetLast\<close> is meant to copy the slot written last, \<open>tail - 1\<close>. When the tail is 0
  the subtraction wraps to 65535, the test \<open>i >= uint16(len(cache.entries))\<close> holds, and
  the code sets \<open>i = 0\<close>: it copies slot 0, the oldest slot of a full ring, and not the
  slot \<open>capacity - 1\<close>. In the ring of capacity 2 below, packet 2 (payload 0xBB) was
  written last, into slot 1, and \<open>GetLast\<close> returns the payload 0xAA of packet 1.
\<close>

theorem GetLast_tail_0_reads_slot_0:
  "tail c = 0 \<Longrightarrow> 0 < length (entries c) \<Longrightarrow>
   GetLast result c = copy_out (entries c ! 0) result"
proof -
  assume a: "tail c = 0" "0 < length (entries c)"
  have "(of_nat (length (entries c)) :: 16 word) \<le> - 1" by simp
  then show ?thesis using a by (simp add: GetLast_def Let_def)
qed

lemma two_stores:
  "Store_all [(1, [0xAA]), (2, [0xBB])] (new_cache (replicate 2 zero_entry)) =
     Inr \<lparr>last_c = 2, cycle = 0, lastValid = True, expected = 2, lost = 0,
        totalLost = 0, first = 1, bitmap = 3, tail = 0,
        entries =
          [\<lparr>seqno = 1, length_e = 1, buf = 0xAA # replicate 1499 0\<rparr>,
           \<lparr>seqno = 2, length_e = 1, buf = 0xBB # replicate 1499 0\<rparr>]\<rparr>"
  by (simp add: eval_defs rep2)

theorem GetLast_tail_0_reads_slot_0_witness:
  "map_sum id (\<lambda>c. (map seqno (entries c), tail c))
     (Store_all [(1, [0xAA]), (2, [0xBB])] (new_cache (replicate 2 zero_entry))) = Inr ([1, 2], 0) \<and>
   bind_p (Store_all [(1, [0xAA]), (2, [0xBB])] (new_cache (replicate 2 zero_entry)))
     (GetLast (replicate 1500 0)) = Inr (1, 0xAA # replicate 1499 0)"
proof -
  let ?c = "\<lparr>last_c = 2, cycle = 0, lastValid = True, expected = 2, lost = 0,
        totalLost = 0, first = 1, bitmap = 3, tail = 0,
        entries =
          [\<lparr>seqno = 1, length_e = 1, buf = 0xAA # replicate 1499 0\<rparr>,
           \<lparr>seqno = 2, length_e = 1, buf = 0xBB # replicate 1499 0 :: byte list\<rparr>]\<rparr>"
  have "GetLast (replicate 1500 0) ?c = copy_out (entries ?c ! 0) (replicate 1500 0)"
    by (rule GetLast_tail_0_reads_slot_0) simp_all
  then have "GetLast (replicate 1500 0) ?c = Inr (1, 0xAA # replicate 1499 0)"
    by (simp add: copy_out_def copy_slice_def)
  then show ?thesis unfolding two_stores by (simp add: bind_p_def)
qed

text \<open>When the tail is not 0, on a ring that is \<open>ring_ok\<close>, \<open>GetLast\<close> does copy the
  slot \<open>tail - 1\<close>.\<close>

lemma GetLast_tail_pos:
  assumes "tail c \<noteq> 0" "ring_ok c"
  shows "GetLast result c = copy_out (entries c ! (unat (tail c) - 1)) result"
proof -
  let ?n = "length (entries c)"
  from assms(2) have n: "?n \<le> 65535" and t: "unat (tail c) < ?n"
    by (auto simp: ring_ok_def)
  have u: "unat (tail c - 1) = unat (tail c) - 1"
    using assms(1) by (rule unat_minus_one)
  have "unat (of_nat ?n :: 16 word) = ?n"
    using n by (simp add: unat_of_nat)
  with u t have "\<not> (of_nat ?n :: 16 word) \<le> tail c - 1"
    by (simp add: word_le_nat_alt)
  moreover from t have "unat (tail c) - 1 < ?n" by arith
  ultimately show ?thesis using u by (simp add: GetLast_def Let_def)
qed

section \<open>Loss statistics of Store\<close>

text \<open>\<open>set\<close> changes the bitmap and \<open>first\<close> only; the statistics part of \<open>Store\<close>
  does not touch the ring. On a ring that is \<open>ring_ok\<close>, \<open>Store\<close> returns, the ring stays
  \<open>ring_ok\<close>, and the statistics are those of \<open>Store_stats\<close>.\<close>

lemma set_c_frame:
  "entries (set_c sq c) = entries c" "tail (set_c sq c) = tail c"
  "last_c (set_c sq c) = last_c c" "lastValid (set_c sq c) = lastValid c"
  "cycle (set_c sq c) = cycle c" "expected (set_c sq c) = expected c"
  "lost (set_c sq c) = lost c" "totalLost (set_c sq c) = totalLost c"
  by (simp_all add: set_c_def Let_def)

lemma Store_stats_frame:
  "entries (Store_stats sq c) = entries c" "tail (Store_stats sq c) = tail c"
  "totalLost (Store_stats sq c) = totalLost c"
  by (simp_all add: Store_stats_def)

lemma Store_stats_cong:
  "stats_eq a b \<Longrightarrow> stats_eq (Store_stats sq a) (Store_stats sq b)"
  by (simp add: stats_eq_def Store_stats_def)

lemma Store_returns:
  assumes "ring_ok c"
  shows "\<exists>r c'. Store sq b c = Inr (r, c') \<and> ring_ok c' \<and> stats_eq c' (Store_stats sq c)"
proof -
  let ?n = "length (entries c)"
  from assms have n: "0 < ?n" "?n \<le> 65535" and t: "unat (tail c) < ?n"
    by (auto simp: ring_ok_def)
  have un: "unat (of_nat ?n :: 16 word) = ?n"
    using n by (simp add: unat_of_nat)
  then have nz: "(of_nat ?n :: 16 word) \<noteq> 0"
    using n by (metis less_numeral_extra(3) unat_0)
  have "unat ((tail c + 1) mod (of_nat ?n :: 16 word)) < ?n"
    using n un by (simp add: unat_mod)
  with n t nz show ?thesis
    by (simp add: Store_def Let_def set_c_frame Store_stats_frame ring_ok_def stats_eq_def)
qed

lemma Store_all_returns:
  "ring_ok c \<Longrightarrow> stats_eq c d \<Longrightarrow>
   \<exists>c'. Store_all ps c = Inr c' \<and> ring_ok c' \<and>
        stats_eq c' (fold (\<lambda>p. Store_stats (fst p)) ps d)"
proof (induction ps arbitrary: c d)
  case Nil
  then show ?case by simp
next
  case (Cons p ps)
  obtain sq b where p: "p = (sq, b)" by (cases p)
  from Store_returns [OF Cons.prems(1), of sq b]
  obtain r c1 where s: "Store sq b c = Inr (r, c1)" "ring_ok c1" "stats_eq c1 (Store_stats sq c)"
    by blast
  from s(3) Store_stats_cong [OF Cons.prems(2), of sq]
  have "stats_eq c1 (Store_stats sq d)" by (simp add: stats_eq_def)
  from Cons.IH [OF s(2) this] s(1) p show ?case by simp
qed

text \<open>
  C3, as the claim states it, fails: after the packets 0, 1, 3, 2 \<open>expected\<close> is 4, not 3
  (the first packet counts 1, packet 1 adds 1, packet 3 adds its gap 2, packet 2 adds
  nothing).
\<close>

theorem Store_0_1_3_2_expected_is_4:
  "map_sum id expected
     (Store_all [(0, []), (1, []), (3, []), (2, [])] (new_cache (replicate 4 zero_entry))) = Inr 4 \<and>
   map_sum id expected
     (Store_all [(0, []), (1, []), (3, []), (2, [])] (new_cache (replicate 4 zero_entry))) \<noteq> Inr 3"
  by (simp add: eval_defs rep4)

text \<open>
  C3, amended. On a fresh cache of any capacity from 1 to 65535, and with any payloads,
  the four calls of \<open>Store\<close> with the sequence numbers 0, 1, 3, 2 return and leave
  \<open>expected = 4\<close> and \<open>lost = 0\<close>: \<open>GetStats\<close> then reports \<open>(4, 0, 0, 3)\<close>.
\<close>

theorem Store_0_1_3_2:
  "1 \<le> C \<and> C \<le> 65535 \<longrightarrow>
     (\<exists>c0 c. New C = Inr (Some c0) \<and>
        Store_all [(0, b0), (1, b1), (3, b3), (2, b2)] c0 = Inr c \<and>
        expected c = 4 \<and> lost c = 0 \<and>
        fst (GetStats reset c) = (4, 0, 0, 3))"
proof
  assume C: "1 \<le> C \<and> C \<le> 65535"
  let ?c0 = "new_cache (replicate (nat C) zero_entry)"
  have new: "New C = Inr (Some ?c0)"
    using C by (simp add: New_def make_entries_upto max_uint16)
  have "nat C \<le> 65535" "0 < nat C" using C by linarith+
  then have ok: "ring_ok ?c0" by (simp add: ring_ok_def new_cache_def)
  have "stats_eq ?c0 (new_cache [])" by (simp add: stats_eq_def new_cache_def)
  from Store_all_returns [OF ok this, of "[(0, b0), (1, b1), (3, b3), (2, b2)]"]
  obtain c where c: "Store_all [(0, b0), (1, b1), (3, b3), (2, b2)] ?c0 = Inr c"
    and "stats_eq c (fold (\<lambda>p. Store_stats (fst p)) [(0, b0), (1, b1), (3, b3), (2, b2)] (new_cache []))"
    by blast
  then have "stats_eq c \<lparr>last_c = 3, cycle = 0, lastValid = True, expected = 4, lost = 0,
     totalLost = 0, first = 0, bitmap = 0, tail = 0, entries = []\<rparr>"
    by (simp add: Store_stats_def seqnoInvalid_def new_cache_def)
  then have "expected c = 4 \<and> lost c = 0 \<and> fst (GetStats reset c) = (4, 0, 0, 3)"
    by (simp add: stats_eq_def GetStats_def)
  with new c show "\<exists>c0 c. New C = Inr (Some c0) \<and>
        Store_all [(0, b0), (1, b1), (3, b3), (2, b2)] c0 = Inr c \<and>
        expected c = 4 \<and> lost c = 0 \<and> fst (GetStats reset c) = (4, 0, 0, 3)" by blast
qed

theorem Store_0_1_3_2_witness:
  "(1 :: int) \<le> 2 \<and> (2 :: int) \<le> 65535 \<and>
   (\<exists>c0 c. New 2 = Inr (Some c0) \<and>
        Store_all [(0, [0xA0]), (1, [0xA1]), (3, [0xA3]), (2, [0xA2])] c0 = Inr c \<and>
        expected c = 4 \<and> lost c = 0 \<and>
        fst (GetStats False c) = (4, 0, 0, 3))"
  using Store_0_1_3_2 [of 2 "[0xA0]" "[0xA1]" "[0xA3]" "[0xA2]" False] by simp

section \<open>Growing a ring whose tail is 0\<close>

lemma four_stores:
  "Store_all [(1, b1), (2, b2), (3, b3), (4, b4)] (new_cache (replicate 4 zero_entry)) =
   Inr \<lparr>last_c = 4, cycle = 0, lastValid = True, expected = 4, lost = 0,
        totalLost = 0, first = 1, bitmap = 15, tail = 0,
        entries =
          [\<lparr>seqno = 1, length_e = of_nat (length b1),
              buf = take 1500 b1 @ replicate (1500 - length b1) 0\<rparr>,
           \<lparr>seqno = 2, length_e = of_nat (length b2),
              buf = take 1500 b2 @ replicate (1500 - length b2) 0\<rparr>,
           \<lparr>seqno = 3, length_e = of_nat (length b3),
              buf = take 1500 b3 @ replicate (1500 - length b3) 0\<rparr>,
           \<lparr>seqno = 4, length_e = of_nat (length b4),
              buf = take 1500 b4 @ replicate (1500 - length b4) 0\<rparr>]\<rparr>"
  by (simp add: eval_defs rep4)

lemma four_stores_Resize_8:
  "bind_p (Store_all [(1, b1), (2, b2), (3, b3), (4, b4)] (new_cache (replicate 4 zero_entry)))
     (Resize 8) =
   Inr \<lparr>last_c = 4, cycle = 0, lastValid = True, expected = 4, lost = 0,
        totalLost = 0, first = 1, bitmap = 15, tail = 0,
        entries =
          [zero_entry, zero_entry, zero_entry, zero_entry,
           \<lparr>seqno = 1, length_e = of_nat (length b1),
              buf = take 1500 b1 @ replicate (1500 - length b1) 0\<rparr>,
           \<lparr>seqno = 2, length_e = of_nat (length b2),
              buf = take 1500 b2 @ replicate (1500 - length b2) 0\<rparr>,
           \<lparr>seqno = 3, length_e = of_nat (length b3),
              buf = take 1500 b3 @ replicate (1500 - length b3) 0\<rparr>,
           \<lparr>seqno = 4, length_e = of_nat (length b4),
              buf = take 1500 b4 @ replicate (1500 - length b4) 0\<rparr>]\<rparr>"
  unfolding four_stores
  by (simp add: bind_p_def Resize_def resize_def make_entries_upto slice_def copy_from_def
      copy_slice_def rep8)

text \<open>
  C4, as the claim states it, fails. After the four packets the tail is 0, so the prefix
  \<open>[0, tail)\<close> that \<open>resize\<close> leaves in place is empty and the whole ring is the
  remainder, which moves up by \<open>8 - 4\<close> slots. Slot 0 of the new ring is empty:
  \<open>GetAt(1, 0, out)\<close> returns 0 and leaves \<open>out\<close> as it was.
\<close>

theorem GetAt_1_0_after_Resize_8_misses:
  "bind_p (bind_p
      (Store_all [(1, [0xA1]), (2, [0xA2]), (3, [0xA3]), (4, [0xA4])]
         (new_cache (replicate 4 zero_entry)))
      (Resize 8)) (GetAt 1 0 (replicate 1500 0))
   = Inr (0, replicate 1500 0)"
  unfolding four_stores_Resize_8 by (simp add: bind_p_def GetAt_def zero_entry_def)

text \<open>
  C4, amended. On a fresh cache of capacity 4, the packets 1, 2, 3, 4 go to the slots
  0, 1, 2, 3 and the tail is back at 0. After \<open>Resize(8)\<close> they are in the slots
  4, 5, 6, 7 and the slots 0 to 3 are empty: \<open>GetAt(1, 0, out)\<close> returns 0, and
  \<open>GetAt(1, 4, out)\<close> returns the payload stored for packet 1 (for a payload of at most
  1500 bytes and an \<open>out\<close> that has room for it).
\<close>

theorem Resize_8_moves_full_ring:
  "length b1 \<le> 1500 \<and> length b1 \<le> length out \<longrightarrow>
     New 4 = Inr (Some (new_cache (replicate 4 zero_entry))) \<and>
     map_sum id (\<lambda>c. (map seqno (entries c), tail c)) (Store_all [(1, b1), (2, b2), (3, b3), (4, b4)] (new_cache (replicate 4 zero_entry)))
       = Inr ([1, 2, 3, 4], 0) \<and>
     map_sum id (\<lambda>c. (map seqno (entries c), tail c)) (bind_p (Store_all [(1, b1), (2, b2), (3, b3), (4, b4)] (new_cache (replicate 4 zero_entry))) (Resize 8))
       = Inr ([0, 0, 0, 0, 1, 2, 3, 4], 0) \<and>
     bind_p (bind_p (Store_all [(1, b1), (2, b2), (3, b3), (4, b4)] (new_cache (replicate 4 zero_entry))) (Resize 8)) (GetAt 1 0 out) = Inr (0, out) \<and>
     bind_p (bind_p (Store_all [(1, b1), (2, b2), (3, b3), (4, b4)] (new_cache (replicate 4 zero_entry))) (Resize 8)) (GetAt 1 4 out)
       = Inr (of_nat (length b1), b1 @ drop (length b1) out)"
proof
  assume a: "length b1 \<le> 1500 \<and> length b1 \<le> length out"
  then have u: "unat (of_nat (length b1) :: 16 word) = length b1"
    by (simp add: unat_of_nat)
  have new: "New 4 = Inr (Some (new_cache (replicate 4 zero_entry)))"
    by (simp add: New_def make_entries_upto max_uint16)
  have s: "map_sum id (\<lambda>c. (map seqno (entries c), tail c)) (Store_all [(1, b1), (2, b2), (3, b3), (4, b4)] (new_cache (replicate 4 zero_entry))) = Inr ([1, 2, 3, 4], 0)"
    unfolding four_stores by simp
  have r: "map_sum id (\<lambda>c. (map seqno (entries c), tail c)) (bind_p (Store_all [(1, b1), (2, b2), (3, b3), (4, b4)] (new_cache (replicate 4 zero_entry))) (Resize 8))
       = Inr ([0, 0, 0, 0, 1, 2, 3, 4], 0)"
    unfolding four_stores_Resize_8 by (simp add: zero_entry_def)
  have g0: "bind_p (bind_p (Store_all [(1, b1), (2, b2), (3, b3), (4, b4)] (new_cache (replicate 4 zero_entry))) (Resize 8)) (GetAt 1 0 out) = Inr (0, out)"
    unfolding four_stores_Resize_8 by (simp add: bind_p_def GetAt_def zero_entry_def)
  have g4: "bind_p (bind_p (Store_all [(1, b1), (2, b2), (3, b3), (4, b4)] (new_cache (replicate 4 zero_entry))) (Resize 8)) (GetAt 1 4 out)
       = Inr (of_nat (length b1), b1 @ drop (length b1) out)"
    unfolding four_stores_Resize_8 using a u
    by (simp add: bind_p_def GetAt_def copy_out_def copy_slice_def min_def)
  from new s r g0 g4 show "New 4 = Inr (Some (new_cache (replicate 4 zero_entry))) \<and>
     map_sum id (\<lambda>c. (map seqno (entries c), tail c)) (Store_all [(1, b1), (2, b2), (3, b3), (4, b4)] (new_cache (replicate 4 zero_entry)))
       = Inr ([1, 2, 3, 4], 0) \<and>
     map_sum id (\<lambda>c. (map seqno (entries c), tail c)) (bind_p (Store_all [(1, b1), (2, b2), (3, b3), (4, b4)] (new_cache (replicate 4 zero_entry))) (Resize 8))
       = Inr ([0, 0, 0, 0, 1, 2, 3, 4], 0) \<and>
     bind_p (bind_p (Store_all [(1, b1), (2, b2), (3, b3), (4, b4)] (new_cache (replicate 4 zero_entry))) (Resize 8)) (GetAt 1 0 out) = Inr (0, out) \<and>
     bind_p (bind_p (Store_all [(1, b1), (2, b2), (3, b3), (4, b4)] (new_cache (replicate 4 zero_entry))) (Resize 8)) (GetAt 1 4 out)
       = Inr (of_nat (length b1), b1 @ drop (length b1) out)"
    by blast
qed

theorem Resize_8_moves_full_ring_witness:
  "length [0xA1 :: byte] \<le> 1500 \<and> length [0xA1 :: byte] \<le> length (replicate 1500 (0 :: byte)) \<and>
   bind_p (bind_p
      (Store_all [(1, [0xA1]), (2, [0xA2]), (3, [0xA3]), (4, [0xA4])]
         (new_cache (replicate 4 zero_entry)))
      (Resize 8)) (GetAt 1 4 (replicate 1500 0))
   = Inr (1, 0xA1 # replicate 1499 0)"
  using Resize_8_moves_full_ring [of "[0xA1]" "replicate 1500 0" "[0xA2]" "[0xA3]" "[0xA4]"]
  by simp

section \<open>Draining the bitmap\<close>

lemma and_1_eq_0_iff: "(w :: 32 word) AND 1 = 0 \<longleftrightarrow> \<not> bit w 0"
  by (simp add: and_one_eq bit_0 mod_2_eq_odd)

text \<open>The loop ends at the first set bit: when bit \<open>n\<close> of \<open>w\<close> is set and no bit below
  it is, the loop returns \<open>w >> n\<close> and \<open>f + n\<close>.\<close>

lemma BitmapGet_loop_returns:
  "bit w n \<Longrightarrow> (\<forall>i<n. \<not> bit w i) \<Longrightarrow>
   BitmapGet_loop w f = Some (drop_bit n w, f + of_nat n)"
proof (induction n arbitrary: w f)
  case 0
  then show ?case by (subst BitmapGet_loop.simps) (simp add: and_1_eq_0_iff)
next
  case (Suc n)
  from Suc.prems have z: "\<not> bit w 0" by blast
  have b: "bit (drop_bit 1 w) n" using Suc.prems(1) by (simp add: bit_drop_bit_eq)
  have nb: "\<forall>i<n. \<not> bit (drop_bit 1 w) i" using Suc.prems(2) by (simp add: bit_drop_bit_eq)
  have "BitmapGet_loop w f = BitmapGet_loop (drop_bit 1 w) (f + 1)"
    using z by (subst BitmapGet_loop.simps) (simp add: and_1_eq_0_iff)
  also have "\<dots> = Some (drop_bit n (drop_bit 1 w), f + 1 + of_nat n)"
    by (rule Suc.IH [OF b nb])
  finally show ?case by (simp add: add.assoc add.commute)
qed

text \<open>\<open>trailing_zeros w\<close> is the position of the lowest set bit of a non-zero \<open>w\<close>, and
  the only position with a set bit and no set bit below.\<close>

lemma takeWhile_upt_first:
  assumes "k < n" "\<not> P k"
  shows "\<not> P (length (takeWhile P [0..<n])) \<and> (\<forall>i < length (takeWhile P [0..<n]). P i)"
proof -
  let ?xs = "[0..<n]"
  let ?t = "takeWhile P ?xs"
  from assms have "\<exists>x\<in>set ?xs. \<not> P x" by auto
  then have "?t \<noteq> ?xs" by (simp only: takeWhile_eq_all_conv ball_simps not_all Bex_def Ball_def) blast
  moreover have "length ?t \<le> length ?xs" by (rule length_takeWhile_le)
  moreover have "?t = take (length ?t) ?xs" by (rule takeWhile_eq_take)
  ultimately have lt: "length ?t < length ?xs"
    by (metis le_neq_implies_less take_all_iff order_refl)
  then have "\<not> P (?xs ! length ?t)" by (rule nth_length_takeWhile)
  moreover have "?xs ! length ?t = length ?t" using lt by simp
  ultimately have 1: "\<not> P (length ?t)" by simp
  have 2: "P i" if il: "i < length ?t" for i
  proof -
    from il have "?t ! i \<in> set ?t" by (rule nth_mem)
    then have "P (?t ! i)" by (rule set_takeWhileD [THEN conjunct2])
    moreover have "?t ! i = ?xs ! i" using il by (rule takeWhile_nth)
    moreover have "i < n" using il lt by simp
    ultimately show ?thesis by simp
  qed
  from 1 2 show ?thesis by blast
qed

lemma trailing_zeros_char:
  assumes "w \<noteq> 0"
  shows "bit w (trailing_zeros w) \<and> (\<forall>i < trailing_zeros w. \<not> bit w i)"
proof -
  from assms obtain k where k: "bit w k" by (auto simp: bit_eq_iff)
  then have "k < 32" using bit_imp_le_length [of w k] by simp
  from takeWhile_upt_first [of k 32 "\<lambda>i. \<not> bit w i", OF this] k
  show ?thesis unfolding trailing_zeros_def by blast
qed

text \<open>
  C7. \<open>BitmapGet\<close> always returns. With \<open>missing = (~bitmap) & 0x1FFFF\<close> of the bitmap
  before the call, the state after has the bitmap shifted right by 17 and \<open>first\<close>
  increased by 17, in every case. The result is \<open>(false, first, 0)\<close> when
  \<open>missing = 0\<close>, and otherwise \<open>(true, first + count, uint16(missing >> (count + 1)))\<close>
  where \<open>count\<close> is the count of trailing zero bits of \<open>missing\<close> and \<open>first\<close> is the
  value before the call.
\<close>

theorem BitmapGet_drains_17:
  "BitmapGet c =
     Some ((if NOT (bitmap c) AND 0x1FFFF = 0 then (False, first c, 0)
            else (True,
                  first c + of_nat (trailing_zeros (NOT (bitmap c) AND 0x1FFFF)),
                  ucast (drop_bit (trailing_zeros (NOT (bitmap c) AND 0x1FFFF) + 1)
                    (NOT (bitmap c) AND 0x1FFFF)))),
           c\<lparr>bitmap := drop_bit 17 (bitmap c), first := first c + 17\<rparr>)"
proof (cases "NOT (bitmap c) AND 0x1FFFF = 0")
  case True
  then show ?thesis by (simp add: BitmapGet_def Let_def)
next
  case False
  let ?m = "NOT (bitmap c) AND 0x1FFFF"
  from trailing_zeros_char [OF False]
  have "BitmapGet_loop ?m (first c) =
    Some (drop_bit (trailing_zeros ?m) ?m, first c + of_nat (trailing_zeros ?m))"
    by (intro BitmapGet_loop_returns) blast+
  with False show ?thesis by (simp add: BitmapGet_def Let_def drop_bit_drop_bit add.commute)
qed


lemma trailing_zeros_eq:
  assumes "bit w n" "\<forall>i<n. \<not> bit w i"
  shows "trailing_zeros w = n"
proof -
  from assms(1) have "w \<noteq> 0" by auto
  from trailing_zeros_char [OF this] assms show ?thesis
    by (meson linorder_neqE_nat)
qed

theorem BitmapGet_drains_17_witness:
  "BitmapGet (new_cache []\<lparr>first := 100, bitmap := 0x21\<rparr>) =
     Some ((True, 101, 0x7FF7), new_cache []\<lparr>first := 117, bitmap := 0\<rparr>) \<and>
   BitmapGet (new_cache []\<lparr>first := 0xFFF8, bitmap := 0x5FFFF\<rparr>) =
     Some ((False, 0xFFF8, 0), new_cache []\<lparr>first := 9, bitmap := 2\<rparr>)"
proof -
  have "trailing_zeros 0x1FFDE = 1"
    by (rule trailing_zeros_eq) simp_all
  then show ?thesis
    using BitmapGet_drains_17 [of "new_cache []\<lparr>first := 100, bitmap := 0x21\<rparr>"]
      BitmapGet_drains_17 [of "new_cache []\<lparr>first := 0xFFF8, bitmap := 0x5FFFF\<rparr>"]
    by (simp add: new_cache_def)
qed

section \<open>The counters lost and totalLost\<close>

lemma Store_stats_counters: "counters_ok (OpStore sq b) c (Store_stats sq c)"
proof -
  have ahead: "1 \<le> unat (sq - last_c c) \<and>
      unat (lost c + ucast (sq - last_c c - 1)) = (unat (lost c) + (unat (sq - last_c c) - 1)) mod 2 ^ 32"
    if "(last_c c - sq) AND 0x8000 \<noteq> 0"
  proof -
    from that have "last_c c - sq \<noteq> 0" by auto
    then have nz: "sq - last_c c \<noteq> 0" by auto
    then have "unat (sq - last_c c) \<noteq> 0" by (simp add: unat_eq_0)
    moreover have "unat (sq - last_c c - 1) < 2 ^ 32"
      using unsigned_less [of "sq - last_c c - 1", where 'a = nat] by simp
    then have "unat (ucast (sq - last_c c - 1) :: 32 word) = unat (sq - last_c c - 1)"
      by (simp add: unsigned_ucast_eq take_bit_nat_eq_self)
    moreover have "unat (sq - last_c c - 1) = unat (sq - last_c c) - 1"
      using nz by (rule unat_minus_one)
    ultimately show ?thesis by (simp add: unat_word_ariths)
  qed
  have dec: "1 \<le> unat (lost c) \<and> unat (lost c - 1) = unat (lost c) - 1" if "0 < lost c"
  proof -
    from that have "lost c \<noteq> 0" by auto
    then show ?thesis by (simp add: unat_minus_one unat_eq_0 Suc_le_eq unat_gt_0)
  qed
  show ?thesis using ahead dec by (simp add: Store_stats_def)
qed


lemma Store_counters:
  assumes "Store sq b c = Inr (r, c')"
  shows "counters_ok (OpStore sq b) c c'"
proof -
  from assms have "lost c' = lost (Store_stats sq c) \<and> totalLost c' = totalLost (Store_stats sq c)"
    by (auto simp: Store_def Let_def set_c_frame split: if_splits)
  with Store_stats_counters [of sq b c] show ?thesis by simp
qed

lemma resize_counters:
  assumes "resize capacity c = Inr c'"
  shows "lost c' = lost c \<and> totalLost c' = totalLost c"
  using assms
  by (auto simp: resize_def Let_def bind_p_def split: if_splits sum.splits)

lemma BitmapGet_counters:
  assumes "BitmapGet c = Some (r, c')"
  shows "lost c' = lost c \<and> totalLost c' = totalLost c"
  using assms
  by (auto simp: BitmapGet_def Let_def split: if_splits option.splits)

lemma GetStats_counters: "counters_ok (OpGetStats reset) c (snd (GetStats reset c))"
  by (simp add: GetStats_def unat_word_ariths)

text \<open>\<open>ResizeCond\<close> where \<open>capacity*2\<close> wraps around: below \<open>- 2 ^ 62\<close> the product is
  positive and the call returns false; from \<open>2 ^ 62\<close> on it is negative and \<open>make\<close>
  panics.\<close>

lemma ResizeCond_product_wraps:
  "ResizeCond (- (2 ^ 62) - 1) (new_cache (replicate 4 zero_entry)) =
     Inr (False, new_cache (replicate 4 zero_entry))"
  by (simp add: ResizeCond_def Let_def quot_def int64_def new_cache_def)

lemma ResizeCond_too_large:
  "ResizeCond (2 ^ 62) (new_cache (replicate 4 zero_entry)) = Inl MakeSliceLenOutOfRange"
  by (simp add: ResizeCond_def Let_def quot_def int64_def new_cache_def resize_def bind_p_def
      make_entries_def entry_size_def maxAlloc_def BufSize_def)

lemma ResizeCond_cases:
  "ResizeCond capacity c = Inr (False, c) \<or>
   ResizeCond capacity c = bind_p (resize capacity c) (\<lambda>cache'. Inr (True, cache'))"
  by (simp add: ResizeCond_def Let_def)

lemma ResizeCond_counters:
  assumes "ResizeCond capacity c = Inr (b, c')"
  shows "lost c' = lost c \<and> totalLost c' = totalLost c"
proof -
  from ResizeCond_cases [of capacity c] show ?thesis
  proof
    assume "ResizeCond capacity c = Inr (False, c)"
    with assms show ?thesis by simp
  next
    assume "ResizeCond capacity c = bind_p (resize capacity c) (\<lambda>cache'. Inr (True, cache'))"
    with assms have "resize capacity c = Inr c'"
      by (cases "resize capacity c") (simp_all add: bind_p_def)
    then show ?thesis by (rule resize_counters)
  qed
qed

lemma step_counters:
  assumes "step x c = Some (Inr c')"
  shows "counters_ok x c c'"
proof (cases x)
  case (OpStore sq b)
  show ?thesis
  proof (cases "Store sq b c")
    case (Inl a)
    with assms OpStore show ?thesis by simp
  next
    case (Inr p)
    with assms OpStore have "snd p = c'" by simp
    with Inr have "Store sq b c = Inr (fst p, c')" by (cases p) simp
    then show ?thesis unfolding OpStore by (rule Store_counters)
  qed
next
  case (OpExpect n)
  with assms show ?thesis by (auto simp: Expect_def)
next
  case (OpGet sq result)
  with assms show ?thesis by (cases "Get sq result c") auto
next
  case (OpGetLast result)
  with assms show ?thesis by (cases "GetLast result c") auto
next
  case (OpGetAt sq index result)
  with assms show ?thesis by (cases "GetAt sq index result c") auto
next
  case (OpResize capacity)
  with assms show ?thesis using resize_counters [of capacity c c'] by (simp add: Resize_def)
next
  case (OpResizeCond capacity)
  show ?thesis
  proof (cases "ResizeCond capacity c")
    case (Inl a)
    with assms OpResizeCond show ?thesis by simp
  next
    case (Inr p)
    with assms OpResizeCond have "snd p = c'" by simp
    with Inr have "ResizeCond capacity c = Inr (fst p, c')" by (cases p) simp
    from ResizeCond_counters [OF this] show ?thesis unfolding OpResizeCond by simp
  qed
next
  case OpBitmapGet
  with assms obtain r where "BitmapGet c = Some (r, c')" by auto
  from BitmapGet_counters [OF this] show ?thesis unfolding OpBitmapGet by simp
next
  case (OpGetStats reset)
  with assms GetStats_counters [of reset c] show ?thesis by auto
qed

lemma run_steps:
  "(x, c, c') \<in> set (run xs c0) \<Longrightarrow> step x c = Some (Inr c')"
proof (induction xs arbitrary: c0)
  case Nil
  then show ?case by simp
next
  case (Cons y ys)
  then show ?case
    by (auto split: option.splits sum.splits)
qed

subsection \<open>A run in which totalLost wraps around\<close>

text \<open>A packet 0x7FFF ahead of the last one is in the ahead branch of \<open>Store\<close> and adds
  0x7FFE to \<open>lost\<close>; \<open>n\<close> of them add \<open>n * 0x7FFE\<close>.\<close>

lemma gap_store_stats:
  assumes "lastValid c"
  shows "lastValid (Store_stats (last_c c + 0x7FFF) c) \<and>
    last_c (Store_stats (last_c c + 0x7FFF) c) = last_c c + 0x7FFF \<and>
    lost (Store_stats (last_c c + 0x7FFF) c) = lost c + 0x7FFE \<and>
    totalLost (Store_stats (last_c c + 0x7FFF) c) = totalLost c"
proof -
  have "\<not> seqnoInvalid (last_c c + 0x7FFF) (last_c c)"
    by (simp add: seqnoInvalid_def)
  moreover have "(last_c c - (last_c c + 0x7FFF)) AND 0x8000 \<noteq> 0"
    by simp
  ultimately show ?thesis using assms by (simp add: Store_stats_def)
qed


lemma gap_store_step:
  assumes "ring_ok c" "lastValid c"
  shows "\<exists>c'. step (OpStore (last_c c + 0x7FFF) []) c = Some (Inr c') \<and> ring_ok c' \<and>
    lastValid c' \<and> last_c c' = last_c c + 0x7FFF \<and> lost c' = lost c + 0x7FFE \<and>
    totalLost c' = totalLost c"
proof -
  from Store_returns [OF assms(1), of "last_c c + 0x7FFF" "[]"]
  obtain r c' where s: "Store (last_c c + 0x7FFF) [] c = Inr (r, c')" "ring_ok c'"
    "stats_eq c' (Store_stats (last_c c + 0x7FFF) c)"
    by blast
  from s(3) gap_store_stats [OF assms(2)]
  have "lastValid c' \<and> last_c c' = last_c c + 0x7FFF \<and> lost c' = lost c + 0x7FFE \<and>
    totalLost c' = totalLost c"
    by (simp add: stats_eq_def)
  with s(1,2) show ?thesis by simp
qed

lemma gap_stores_exec:
  "ring_ok c \<Longrightarrow> lastValid c \<Longrightarrow>
   \<exists>c'. exec (gap_stores n (last_c c)) c = Some (Inr c') \<and> ring_ok c' \<and> lastValid c' \<and>
     last_c c' = last_c c + of_nat n * 0x7FFF \<and> lost c' = lost c + of_nat n * 0x7FFE \<and>
     totalLost c' = totalLost c"
proof (induction n arbitrary: c)
  case 0
  then show ?case by simp
next
  case (Suc n)
  from gap_store_step [OF Suc.prems]
  obtain c1 where c1: "step (OpStore (last_c c + 0x7FFF) []) c = Some (Inr c1)" "ring_ok c1"
    "lastValid c1" "last_c c1 = last_c c + 0x7FFF" "lost c1 = lost c + 0x7FFE"
    "totalLost c1 = totalLost c"
    by blast
  from Suc.IH [OF c1(2,3)]
  obtain c' where c': "exec (gap_stores n (last_c c1)) c1 = Some (Inr c')" "ring_ok c'"
    "lastValid c'" "last_c c' = last_c c1 + of_nat n * 0x7FFF"
    "lost c' = lost c1 + of_nat n * 0x7FFE" "totalLost c' = totalLost c1"
    by blast
  have "exec (gap_stores (Suc n) (last_c c)) c = Some (Inr c')"
    using c1(1,4) c'(1) by simp
  moreover have "last_c c' = last_c c + of_nat (Suc n) * 0x7FFF"
    using c1(4) c'(4) by (simp add: algebra_simps)
  moreover have "lost c' = lost c + of_nat (Suc n) * 0x7FFE"
    using c1(5) c'(5) by (simp add: algebra_simps)
  ultimately show ?case using c'(2,3,6) c1(6) by simp
qed

lemma exec_append:
  "exec xs c = Some (Inr c') \<Longrightarrow> exec (xs @ ys) c = exec ys c'"
proof (induction xs arbitrary: c)
  case Nil
  then show ?case by simp
next
  case (Cons x xs)
  then show ?case by (simp split: option.splits sum.splits)
qed

lemma run_snoc_last:
  "exec xs c = Some (Inr c1) \<Longrightarrow> step y c1 = Some (Inr c2) \<Longrightarrow>
   last (run (xs @ [y]) c) = (y, c1, c2)"
proof (induction xs arbitrary: c)
  case Nil
  then show ?case by simp
next
  case (Cons x xs)
  from Cons.prems(1) obtain c0 where c0: "step x c = Some (Inr c0)" "exec xs c0 = Some (Inr c1)"
    by (auto split: option.splits sum.splits)
  from Cons.IH [OF c0(2) Cons.prems(2)] have l: "last (run (xs @ [y]) c0) = (y, c1, c2)" .
  have "run (xs @ [y]) c0 \<noteq> []"
    using c0(2) Cons.prems(2)
  proof (cases xs)
    case Nil
    with c0(2) Cons.prems(2) show ?thesis by simp
  next
    case (Cons z zs)
    with c0(2) show ?thesis by (auto split: option.splits sum.splits)
  qed
  with l c0(1) show ?case by simp
qed


lemma GetStats_True_step:
  "step (OpGetStats True) c = Some (Inr (snd (GetStats True c))) \<and>
   ring_ok (snd (GetStats True c)) = ring_ok c \<and>
   lastValid (snd (GetStats True c)) = lastValid c \<and>
   last_c (snd (GetStats True c)) = last_c c \<and>
   lost (snd (GetStats True c)) = 0 \<and>
   totalLost (snd (GetStats True c)) = totalLost c + lost c"
  by (simp add: GetStats_def ring_ok_def)

text \<open>
  C9, as the claim states it, fails in its last clause: \<open>totalLost\<close> does decrease.
  \<open>GetStats(true)\<close> adds \<open>lost\<close> to it in \<open>uint32\<close>, and the sum wraps around. On a fresh
  cache of capacity 4: packet 0, one packet 0x7FFF ahead, \<open>GetStats(true)\<close> (now
  \<open>totalLost = 0x7FFE\<close>), 131080 packets each 0x7FFF ahead of the one before (now
  \<open>lost = 0xFFFFFFF0\<close>), and \<open>GetStats(true)\<close> again: this last call takes \<open>totalLost\<close>
  from 0x7FFE down to 0x7FEE.
\<close>

theorem totalLost_falls_by_wrap:
  "New 4 = Inr (Some (new_cache (replicate 4 zero_entry))) \<and>
   fst (last (run ((OpStore 0 [] # gap_stores 1 0 @ OpGetStats True # gap_stores 131080 0x7FFF)
                 @ [OpGetStats True])
              (new_cache (replicate 4 zero_entry)))) = OpGetStats True \<and>
   totalLost (fst (snd (last (run ((OpStore 0 [] # gap_stores 1 0 @ OpGetStats True # gap_stores 131080 0x7FFF)
                 @ [OpGetStats True])
              (new_cache (replicate 4 zero_entry)))))) = 0x7FFE \<and>
   totalLost (snd (snd (last (run ((OpStore 0 [] # gap_stores 1 0 @ OpGetStats True # gap_stores 131080 0x7FFF)
                 @ [OpGetStats True])
              (new_cache (replicate 4 zero_entry)))))) = 0x7FEE \<and>
   unat (totalLost (snd (snd (last (run ((OpStore 0 [] # gap_stores 1 0 @ OpGetStats True # gap_stores 131080 0x7FFF)
                 @ [OpGetStats True])
              (new_cache (replicate 4 zero_entry))))))) < unat (totalLost (fst (snd (last (run ((OpStore 0 [] # gap_stores 1 0 @ OpGetStats True # gap_stores 131080 0x7FFF)
                 @ [OpGetStats True])
              (new_cache (replicate 4 zero_entry)))))))"
proof -
  let ?C0 = "new_cache (replicate 4 zero_entry)"
  have new: "New 4 = Inr (Some ?C0)"
    by (simp add: New_def make_entries_upto max_uint16)
  have ok0: "ring_ok ?C0" by (simp add: ring_ok_def new_cache_def)
  from Store_returns [OF ok0, of 0 "[]"]
  obtain r ca where ca: "Store 0 [] ?C0 = Inr (r, ca)" "ring_ok ca"
    "stats_eq ca (Store_stats 0 ?C0)"
    by blast
  from ca(3) have sa: "lastValid ca" "last_c ca = 0" "lost ca = 0" "totalLost ca = 0"
    by (simp_all add: stats_eq_def Store_stats_def new_cache_def)
  from gap_stores_exec [OF ca(2) sa(1), of 1] sa
  obtain cb where cb: "exec (gap_stores 1 0) ca = Some (Inr cb)" "ring_ok cb" "lastValid cb"
    "last_c cb = 0x7FFF" "lost cb = 0x7FFE" "totalLost cb = 0"
    by auto
  let ?cc = "snd (GetStats True cb)"
  from GetStats_True_step [of cb] cb
  have cc: "step (OpGetStats True) cb = Some (Inr ?cc)" "ring_ok ?cc" "lastValid ?cc"
    "last_c ?cc = 0x7FFF" "lost ?cc = 0" "totalLost ?cc = 0x7FFE"
    by simp_all
  from gap_stores_exec [OF cc(2,3), of 131080] cc(4,5,6)
  obtain cd where cd: "exec (gap_stores 131080 0x7FFF) ?cc = Some (Inr cd)"
    "lost cd = 0xFFFFFFF0" "totalLost cd = 0x7FFE"
    by auto
  let ?ce = "snd (GetStats True cd)"
  from GetStats_True_step [of cd] cd
  have ce: "step (OpGetStats True) cd = Some (Inr ?ce)" "totalLost ?ce = 0x7FEE"
    by simp_all
  have "exec (OpGetStats True # gap_stores 131080 0x7FFF) cb = Some (Inr cd)"
    using cc(1) cd(1) by simp
  with exec_append [OF cb(1), of "OpGetStats True # gap_stores 131080 0x7FFF"]
  have "exec (gap_stores 1 0 @ OpGetStats True # gap_stores 131080 0x7FFF) ca = Some (Inr cd)"
    by simp
  with ca(1)
  have "exec (OpStore 0 [] # gap_stores 1 0 @ OpGetStats True # gap_stores 131080 0x7FFF) ?C0
    = Some (Inr cd)"
    by simp
  from run_snoc_last [OF this ce(1)]
  have l: "last (run ((OpStore 0 [] # gap_stores 1 0 @ OpGetStats True # gap_stores 131080 0x7FFF)
                 @ [OpGetStats True])
              (new_cache (replicate 4 zero_entry))) = (OpGetStats True, cd, ?ce)" .
  have "unat (0x7FEE :: 32 word) < unat (0x7FFE :: 32 word)" by simp
  with new l cd(3) ce(2) show ?thesis by simp
qed

subsection \<open>No subtraction below zero\<close>

text \<open>
  C9, amended. In every run of public operations, from a fresh cache or from any other
  state, each call that returns changes \<open>lost\<close> and \<open>totalLost\<close> as \<open>counters_ok\<close> allows:
  \<open>lost\<close> is decremented only when it is at least 1, the forward-gap increment
  \<open>gap - 1\<close> is taken for a gap of at least 1, and nothing is ever subtracted from
  \<open>totalLost\<close>, which changes only by the addition \<open>totalLost += lost\<close> of
  \<open>GetStats(true)\<close>, an addition of \<open>uint32\<close> that wraps modulo \<open>2 ^ 32\<close>. So neither
  counter wraps below zero.
\<close>

theorem counters_never_underflow:
  "\<forall>(x, c, c') \<in> set (run xs c0). counters_ok x c c'"
  using run_steps step_counters by blast

theorem counters_never_underflow_witness:
  "list_all (\<lambda>(x, c, c'). counters_ok x c c')
     (run [OpStore 0 [], OpStore 1 [], OpStore 3 [], OpGetStats True, OpStore 2 [], OpExpect 5,
           OpGetStats True]
        (new_cache (replicate 4 zero_entry))) \<and>
   map (\<lambda>(x, c, c'). (lost c', totalLost c'))
     (run [OpStore 0 [], OpStore 1 [], OpStore 3 [], OpGetStats True, OpStore 2 [], OpExpect 5,
           OpGetStats True]
        (new_cache (replicate 4 zero_entry)))
   = [(0, 0), (0, 0), (1, 0), (0, 1), (0, 1), (0, 1), (0, 1)]"
proof -
  have a: "list_all (\<lambda>(x, c, c'). counters_ok x c c')
     (run [OpStore 0 [], OpStore 1 [], OpStore 3 [], OpGetStats True, OpStore 2 [], OpExpect 5,
           OpGetStats True]
        (new_cache (replicate 4 zero_entry)))"
    using counters_never_underflow
      [of "[OpStore 0 [], OpStore 1 [], OpStore 3 [], OpGetStats True, OpStore 2 [], OpExpect 5,
           OpGetStats True]" "new_cache (replicate 4 zero_entry)"]
    by (simp only: list_all_iff)
  have b: "map (\<lambda>(x, c, c'). (lost c', totalLost c'))
     (run [OpStore 0 [], OpStore 1 [], OpStore 3 [], OpGetStats True, OpStore 2 [], OpExpect 5,
           OpGetStats True]
        (new_cache (replicate 4 zero_entry)))
   = [(0, 0), (0, 0), (1, 0), (0, 1), (0, 1), (0, 1), (0, 1)]"
    by (simp add: eval_defs rep4 GetStats_def Expect_def)
  from a b show ?thesis by (rule conjI)
qed

end
